theory Spec2Isabelle
  imports
    Main
    "HOL-Library.AList"
    "HOL-Library.Char_ord"
    "HOL-Library.List_Lexorder"
    "HOL-Library.Product_Lexorder"
    "HOL-Library.Sublist"
    "HOL-Library.Multiset"
begin

section \<open>Python containers used by \<open>task2.py\<close>\<close>

text \<open>
  Product names are Python strings, compared by \<open>sorted\<close> character by character
  (the lexicographic order of \<open>HOL-Library.List_Lexorder\<close> over \<open>HOL-Library.Char_ord\<close>).
  A Python \<open>dict\<close> keeps its keys in the order of first insertion and the queries iterate
  over \<open>items()\<close>, so a dict is an association list in insertion order: storing under a
  key that is present replaces the value in place, storing under a new key appends
  (\<open>AList.update\<close>). Counts are Python integers, hence \<open>int\<close>.
\<close>

type_synonym item = string
type_synonym 'v dict = "(item \<times> 'v) list"

datatype error = KeyError

definition contains :: "'v dict \<Rightarrow> item \<Rightarrow> bool" where
  \<comment> \<open>\<open>k in d\<close>\<close>
  "contains d k = (map_of d k \<noteq> None)"

definition dict_getitem :: "'v dict \<Rightarrow> item \<Rightarrow> error + 'v" where
  \<comment> \<open>\<open>d[k]\<close> on a plain dict: raises \<open>KeyError\<close> on a missing key\<close>
  "dict_getitem d k = (case map_of d k of None \<Rightarrow> Inl KeyError | Some v \<Rightarrow> Inr v)"

definition dict_setitem :: "'v dict \<Rightarrow> item \<Rightarrow> 'v \<Rightarrow> 'v dict" where
  \<comment> \<open>\<open>d[k] = v\<close>\<close>
  "dict_setitem d k v = AList.update k v d"

definition defaultdict_getitem :: "'v dict dict \<Rightarrow> item \<Rightarrow> 'v dict \<times> 'v dict dict" where
  \<comment> \<open>\<open>d[k]\<close> on a \<open>defaultdict(dict)\<close>: a missing key is first stored with a fresh empty
      dict; the value and the (possibly extended) defaultdict are returned\<close>
  "defaultdict_getitem d k =
     (case map_of d k of
        Some v \<Rightarrow> (v, d)
      | None \<Rightarrow> ([], d @ [(k, [])]))"

definition counter_getitem :: "int dict \<Rightarrow> item \<Rightarrow> int" where
  \<comment> \<open>\<open>c[k]\<close> on a \<open>Counter\<close>: a missing key reads as 0 and is not stored\<close>
  "counter_getitem c k = (case map_of c k of None \<Rightarrow> 0 | Some v \<Rightarrow> v)"

definition sorted_reverse :: "('a \<Rightarrow> int) \<Rightarrow> 'a list \<Rightarrow> 'a list" where
  \<comment> \<open>\<open>sorted(xs, key=key, reverse=True)\<close>: descending by key; Python's sort is stable and
      \<open>reverse=True\<close> keeps elements with equal keys in their original order\<close>
  "sorted_reverse key xs = sort_key (\<lambda>x. - key x) xs"

definition slice_to :: "'a list \<Rightarrow> int \<Rightarrow> 'a list" where
  \<comment> \<open>\<open>xs[:n]\<close>: a negative bound counts from the end\<close>
  "slice_to xs n =
     (if 0 \<le> n then take (nat n) xs else take (length xs - nat (- n)) xs)"

definition most_common :: "int dict \<Rightarrow> int \<Rightarrow> (item \<times> int) list" where
  \<comment> \<open>\<open>Counter.most_common(n)\<close> of the standard library, which is
      \<open>heapq.nlargest(n, c.items(), key=itemgetter(1))\<close>: the \<open>n\<close> entries with the largest
      counts, largest first, equal counts in insertion order; nothing when \<open>n \<le> 0\<close>\<close>
  "most_common c n = (if n \<le> 0 then [] else take (nat n) (sorted_reverse snd c))"

section \<open>The graph\<close>

record graph =
  adjacency_list :: "int dict dict"
  product_frequency :: "int dict"
  product_categories :: "string dict"

definition init_product_categories :: "string dict" where
  "init_product_categories =
     [(''whole milk'', ''dairy''),
      (''yogurt'', ''dairy''),
      (''whipped/sour cream'', ''dairy''),
      (''butter'', ''dairy''),
      (''cheese'', ''dairy''),
      (''other vegetables'', ''vegetables''),
      (''root vegetables'', ''vegetables''),
      (''carrots'', ''vegetables''),
      (''tomatoes'', ''vegetables''),
      (''tropical fruit'', ''fruits''),
      (''pip fruit'', ''fruits''),
      (''citrus fruit'', ''fruits''),
      (''grapes'', ''fruits''),
      (''berries'', ''fruits''),
      (''rolls/buns'', ''bakery''),
      (''brown bread'', ''bakery''),
      (''white bread'', ''bakery''),
      (''pastry'', ''bakery''),
      (''soda'', ''drinks''),
      (''bottled water'', ''drinks''),
      (''canned beer'', ''drinks''),
      (''bottled beer'', ''drinks''),
      (''coffee'', ''drinks''),
      (''tea'', ''drinks''),
      (''sausage'', ''meat''),
      (''frankfurter'', ''meat''),
      (''pork'', ''meat''),
      (''beef'', ''meat''),
      (''chicken'', ''meat'')]"

definition init_graph :: graph where
  \<comment> \<open>\<open>__init__\<close>\<close>
  "init_graph =
     \<lparr>adjacency_list = [], product_frequency = [],
      product_categories = init_product_categories\<rparr>"

subsection \<open>\<open>add_transaction\<close>\<close>

definition increment_frequency :: "int dict \<Rightarrow> item list \<Rightarrow> int dict" where
  \<comment> \<open>\<open>for item in items: self.product_frequency[item] += 1\<close>\<close>
  "increment_frequency freq items =
     foldl (\<lambda>f item. dict_setitem f item (counter_getitem f item + 1)) freq items"

definition increment_edge :: "int dict dict \<Rightarrow> item \<Rightarrow> item \<Rightarrow> int dict dict" where
  \<comment> \<open>\<open>if item2 in adj[item1]: adj[item1][item2] += 1 else: adj[item1][item2] = 1\<close>.
      The membership test and the read of the guarded branch are one \<open>case\<close>, so the
      read cannot miss; the neighbour dict is owned by the entry of \<open>item1\<close> alone,
      so changing it in place is storing the changed dict under \<open>item1\<close>.\<close>
  "increment_edge adj item1 item2 =
     (let (neighbors, adj1) = defaultdict_getitem adj item1 in
      case map_of neighbors item2 of
        Some c \<Rightarrow> dict_setitem adj1 item1 (dict_setitem neighbors item2 (c + 1))
      | None \<Rightarrow> dict_setitem adj1 item1 (dict_setitem neighbors item2 1))"

fun inner_loop :: "int dict dict \<Rightarrow> item \<Rightarrow> item list \<Rightarrow> int dict dict" where
  \<comment> \<open>\<open>for j in range(i + 1, len(sorted_items))\<close>, over the items after position \<open>i\<close>\<close>
  "inner_loop adj item1 [] = adj"
| "inner_loop adj item1 (item2 # rest) =
     inner_loop (increment_edge (increment_edge adj item1 item2) item2 item1) item1 rest"

fun outer_loop :: "int dict dict \<Rightarrow> item list \<Rightarrow> int dict dict" where
  \<comment> \<open>\<open>for i in range(len(sorted_items))\<close>\<close>
  "outer_loop adj [] = adj"
| "outer_loop adj (item1 # rest) = outer_loop (inner_loop adj item1 rest) rest"

definition add_transaction :: "graph \<Rightarrow> item list \<Rightarrow> graph" where
  "add_transaction g items =
     (if length items < 2
      then g\<lparr>product_frequency := increment_frequency (product_frequency g) items\<rparr>
      else g\<lparr>product_frequency := increment_frequency (product_frequency g) items,
             adjacency_list := outer_loop (adjacency_list g) (sort items)\<rparr>)"

definition build :: "item list list \<Rightarrow> graph" where
  \<comment> \<open>a fresh graph after ingesting the transactions in order, as \<open>main\<close> and the tests do\<close>
  "build ts = foldl add_transaction init_graph ts"

subsection \<open>Queries\<close>

text \<open>
  Every query returns its result together with the graph it leaves behind, because a
  read \<open>self.adjacency_list[k]\<close> of the defaultdict stores an empty entry when \<open>k\<close> is
  missing.
\<close>

definition get_top_co_purchase :: "graph \<Rightarrow> item \<Rightarrow> int \<Rightarrow> (item \<times> int) list \<times> graph" where
  "get_top_co_purchase g target_product top_n =
     (if \<not> contains (adjacency_list g) target_product then ([], g)
      else
        let (neighbors, adj1) = defaultdict_getitem (adjacency_list g) target_product;
            co_purchase_items = sorted_reverse snd neighbors
        in (slice_to co_purchase_items top_n, g\<lparr>adjacency_list := adj1\<rparr>))"

definition check_co_purchase_relation :: "graph \<Rightarrow> item \<Rightarrow> item \<Rightarrow> (error + int) \<times> graph" where
  "check_co_purchase_relation g item1 item2 =
     (if contains (adjacency_list g) item1 then
        let (neighbors, adj1) = defaultdict_getitem (adjacency_list g) item1 in
        if contains neighbors item2 then
          let (neighbors2, adj2) = defaultdict_getitem adj1 item1
          in (dict_getitem neighbors2 item2, g\<lparr>adjacency_list := adj2\<rparr>)
        else (Inr 0, g\<lparr>adjacency_list := adj1\<rparr>)
      else (Inr 0, g))"

definition sorted_pair :: "item \<Rightarrow> item \<Rightarrow> item \<times> item" where
  \<comment> \<open>\<open>tuple(sorted([item1, item2]))\<close>: the stable sort of two elements swaps them only
      when the second is strictly smaller\<close>
  "sorted_pair item1 item2 = (if item2 < item1 then (item2, item1) else (item1, item2))"

type_synonym pair_state = "((item \<times> item) \<times> int) list \<times> (item \<times> item) set"

fun pairs_inner :: "item \<Rightarrow> (item \<times> int) list \<Rightarrow> pair_state \<Rightarrow> pair_state" where
  \<comment> \<open>\<open>for item2, count in neighbors.items()\<close>, on \<open>(all_pairs, processed_pairs)\<close>\<close>
  "pairs_inner item1 [] st = st"
| "pairs_inner item1 ((item2, cnt) # rest) (all_pairs, processed_pairs) =
     (let pair = sorted_pair item1 item2 in
      if pair \<notin> processed_pairs
      then pairs_inner item1 rest (all_pairs @ [(pair, cnt)], insert pair processed_pairs)
      else pairs_inner item1 rest (all_pairs, processed_pairs))"

fun pairs_outer :: "int dict dict \<Rightarrow> pair_state \<Rightarrow> pair_state" where
  \<comment> \<open>\<open>for item1, neighbors in self.adjacency_list.items()\<close>\<close>
  "pairs_outer [] st = st"
| "pairs_outer ((item1, neighbors) # rest) st = pairs_outer rest (pairs_inner item1 neighbors st)"

definition collect_pairs :: "graph \<Rightarrow> ((item \<times> item) \<times> int) list" where
  \<comment> \<open>\<open>all_pairs\<close> when the two loops are done\<close>
  "collect_pairs g = fst (pairs_outer (adjacency_list g) ([], {}))"

definition get_top3_product_pairs :: "graph \<Rightarrow> ((item \<times> item) \<times> int) list \<times> graph" where
  "get_top3_product_pairs g =
     (let all_pairs_sorted = sorted_reverse snd (collect_pairs g)
      in (slice_to all_pairs_sorted 3, g))"

definition dict_comprehension :: "(item \<times> 'v) list \<Rightarrow> 'v dict" where
  \<comment> \<open>\<open>{k: v for k, v in kvs}\<close>: the pairs are stored one after the other\<close>
  "dict_comprehension kvs = foldl (\<lambda>d (k, v). dict_setitem d k v) [] kvs"

fun filter_loop ::
  "item list \<Rightarrow> item list \<Rightarrow> int dict dict \<times> int dict dict \<Rightarrow> int dict dict \<times> int dict dict"
where
  \<comment> \<open>\<open>for product in category_products\<close>, on \<open>(filtered_adj, self.adjacency_list)\<close>\<close>
  "filter_loop category_products [] st = st"
| "filter_loop category_products (product # rest) (filtered_adj, adj) =
     (if contains adj product then
        let (neighbors, adj1) = defaultdict_getitem adj product;
            filtered_neighbors =
              dict_comprehension
                (filter (\<lambda>(neighbor, cnt). neighbor \<in> set category_products) neighbors)
        in if filtered_neighbors \<noteq> []
           then filter_loop category_products rest
                  (dict_setitem filtered_adj product filtered_neighbors, adj1)
           else filter_loop category_products rest (filtered_adj, adj1)
      else filter_loop category_products rest (filtered_adj, adj))"

definition filter_by_category :: "graph \<Rightarrow> string \<Rightarrow> int dict dict \<times> graph" where
  "filter_by_category g category =
     (let category_products =
            map fst (filter (\<lambda>(p, cat). cat = category) (product_categories g))
      in if category_products = [] then ([], g)
         else
           let (filtered_adj, adj1) =
                 filter_loop category_products category_products ([], adjacency_list g)
           in (filtered_adj, g\<lparr>adjacency_list := adj1\<rparr>))"

fun score_neighbors :: "item list \<Rightarrow> (item \<times> int) list \<Rightarrow> int dict \<Rightarrow> int dict" where
  \<comment> \<open>\<open>for neighbor, count in self.adjacency_list[product].items()\<close>, on
      \<open>recommendation_scores\<close>\<close>
  "score_neighbors input_products [] scores = scores"
| "score_neighbors input_products ((neighbor, cnt) # rest) scores =
     (if neighbor \<notin> set input_products
      then score_neighbors input_products rest
             (dict_setitem scores neighbor (counter_getitem scores neighbor + cnt))
      else score_neighbors input_products rest scores)"

fun recommendation_loop ::
  "item list \<Rightarrow> item list \<Rightarrow> int dict \<times> int dict dict \<Rightarrow> int dict \<times> int dict dict"
where
  \<comment> \<open>\<open>for product in input_products\<close>, on \<open>(recommendation_scores, self.adjacency_list)\<close>\<close>
  "recommendation_loop input_products [] st = st"
| "recommendation_loop input_products (product # rest) (scores, adj) =
     (if contains adj product then
        let (neighbors, adj1) = defaultdict_getitem adj product
        in recommendation_loop input_products rest
             (score_neighbors input_products neighbors scores, adj1)
      else recommendation_loop input_products rest (scores, adj))"

definition get_recommendation :: "graph \<Rightarrow> item list \<Rightarrow> int \<Rightarrow> (item \<times> int) list \<times> graph" where
  "get_recommendation g input_products top_n =
     (let (recommendation_scores, adj1) =
            recommendation_loop input_products input_products ([], adjacency_list g)
      in (most_common recommendation_scores top_n, g\<lparr>adjacency_list := adj1\<rparr>))"

section \<open>Vocabulary of the specification\<close>

definition neighbors_of :: "graph \<Rightarrow> item \<Rightarrow> (item \<times> int) list" where
  \<comment> \<open>the neighbour mapping of an item, in insertion order; empty for an item without entry\<close>
  "neighbors_of g a = (case map_of (adjacency_list g) a of None \<Rightarrow> [] | Some d \<Rightarrow> d)"

definition co_adj :: "int dict dict \<Rightarrow> item \<Rightarrow> item \<Rightarrow> int option" where
  "co_adj adj a b = (case map_of adj a of None \<Rightarrow> None | Some d \<Rightarrow> map_of d b)"

definition coPurchase :: "graph \<Rightarrow> item \<Rightarrow> item \<Rightarrow> int option" where
  \<comment> \<open>\<open>coPurchase[A][B]\<close>, \<open>None\<close> when it is not defined\<close>
  "coPurchase g a b = co_adj (adjacency_list g) a b"

definition frequency :: "graph \<Rightarrow> item \<Rightarrow> int" where
  \<comment> \<open>\<open>frequency[A]\<close>, read from the Counter\<close>
  "frequency g a = counter_getitem (product_frequency g) a"

definition succ_count :: "int option \<Rightarrow> int" where
  \<comment> \<open>a count after one more co-purchase\<close>
  "succ_count c = (case c of None \<Rightarrow> 1 | Some n \<Rightarrow> n + 1)"

definition count_or_zero :: "int option \<Rightarrow> int" where
  "count_or_zero c = (case c of None \<Rightarrow> 0 | Some n \<Rightarrow> n)"

definition ingested :: "item list list \<Rightarrow> item set" where
  \<comment> \<open>the items seen in some transaction\<close>
  "ingested ts = \<Union> (set ` set ts)"

definition dict_ok :: "'v dict \<Rightarrow> bool" where
  \<comment> \<open>a dict holds each key once\<close>
  "dict_ok d = distinct (map fst d)"

definition graph_ok :: "graph \<Rightarrow> bool" where
  "graph_ok g =
     (dict_ok (adjacency_list g) \<and> list_all (\<lambda>(a, d). dict_ok d) (adjacency_list g)
      \<and> dict_ok (product_frequency g) \<and> dict_ok (product_categories g))"

definition top_co_purchase_spec :: "graph \<Rightarrow> item \<Rightarrow> int \<Rightarrow> (item \<times> int) list" where
  \<comment> \<open>the specification's order: descending count, then ascending neighbour identifier\<close>
  "top_co_purchase_spec g target n =
     take (nat n) (sort_key (\<lambda>(neighbor, cnt). (- cnt, neighbor)) (neighbors_of g target))"

definition top_pairs_spec :: "graph \<Rightarrow> int \<Rightarrow> ((item \<times> item) \<times> int) list" where
  \<comment> \<open>the specification's order: descending count, then ascending canonical pair\<close>
  "top_pairs_spec g k =
     take (nat k) (sort_key (\<lambda>(pair, cnt). (- cnt, pair)) (collect_pairs g))"

definition symmetric :: "int dict dict \<Rightarrow> bool" where
  \<comment> \<open>both directions of every pair agree, also on being undefined\<close>
  "symmetric adj = (\<forall>a b. co_adj adj a b = co_adj adj b a)"

definition count_bounded :: "graph \<Rightarrow> bool" where
  \<comment> \<open>no pair count exceeds the frequency of either member\<close>
  "count_bounded g =
     (\<forall>a b. count_or_zero (coPurchase g a b) \<le> frequency g a
          \<and> count_or_zero (coPurchase g a b) \<le> frequency g b)"

definition stable_descending :: "('a \<times> int) list \<Rightarrow> ('a \<times> int) list \<Rightarrow> bool" where
  \<comment> \<open>\<open>ys\<close> holds the entries of \<open>src\<close>, largest count first, entries with equal counts in
      the order they have in \<open>src\<close>\<close>
  "stable_descending src ys =
     (mset ys = mset src
      \<and> sorted_wrt (\<lambda>x y. snd y \<le> snd x) ys
      \<and> list_all (\<lambda>e. filter (\<lambda>x. snd x = snd e) ys = filter (\<lambda>x. snd x = snd e) src) src)"

definition recommendation_scores :: "graph \<Rightarrow> item list \<Rightarrow> int dict" where
  \<comment> \<open>the Counter \<open>recommendation_scores\<close> when the loops of \<open>get_recommendation\<close> are done\<close>
  "recommendation_scores g input_products =
     fst (recommendation_loop input_products input_products ([], adjacency_list g))"

definition record_pair :: "pair_state \<Rightarrow> (item \<times> item) \<times> int \<Rightarrow> pair_state" where
  \<comment> \<open>the body of the inner loop of \<open>get_top3_product_pairs\<close> on an already sorted pair\<close>
  "record_pair st e =
     (if fst e \<notin> snd st then (fst st @ [e], insert (fst e) (snd st)) else st)"

definition edges_of :: "item \<Rightarrow> (item \<times> int) list \<Rightarrow> ((item \<times> item) \<times> int) list" where
  \<comment> \<open>the entries of one item, each with its pair sorted\<close>
  "edges_of item1 neighbors = map (\<lambda>(item2, cnt). (sorted_pair item1 item2, cnt)) neighbors"

definition edges :: "int dict dict \<Rightarrow> ((item \<times> item) \<times> int) list" where
  \<comment> \<open>every entry of the adjacency list in iteration order, its pair sorted\<close>
  "edges adj = concat (map (\<lambda>(item1, neighbors). edges_of item1 neighbors) adj)"

section \<open>Ingestion: what one edge update and the two loops do\<close>

lemma map_of_dict_setitem: "map_of (dict_setitem d k v) = (map_of d)(k \<mapsto> v)"
  by (simp add: dict_setitem_def update_conv')

lemma co_adj_increment_edge:
  "co_adj (increment_edge adj x y) a b =
     (if a = x \<and> b = y then Some (succ_count (co_adj adj x y)) else co_adj adj a b)"
  by (auto simp: co_adj_def increment_edge_def defaultdict_getitem_def map_of_dict_setitem
      succ_count_def split: option.splits)

lemma contains_increment_edge:
  "contains (increment_edge adj x y) a = (a = x \<or> contains adj a)"
  by (auto simp: contains_def increment_edge_def defaultdict_getitem_def map_of_dict_setitem
      split: option.splits)

subsection \<open>Symmetry\<close>

lemma symmetric_step:
  assumes "symmetric adj"
  shows "symmetric (increment_edge (increment_edge adj x y) y x)"
proof -
  have S: "co_adj adj p q = co_adj adj q p" for p q
    using assms by (simp add: symmetric_def)
  have "co_adj (increment_edge (increment_edge adj x y) y x) a b
      = co_adj (increment_edge (increment_edge adj x y) y x) b a" for a b
  proof (cases "x = y")
    case True
    then show ?thesis by (simp add: co_adj_increment_edge S [of a b])
  next
    case False
    then show ?thesis
      using S [of a b] S [of x y] by (simp add: co_adj_increment_edge)
  qed
  then show ?thesis by (simp add: symmetric_def)
qed

lemma symmetric_inner: "symmetric adj \<Longrightarrow> symmetric (inner_loop adj x ys)"
  by (induction ys arbitrary: adj) (simp_all add: symmetric_step)

lemma symmetric_outer: "symmetric adj \<Longrightarrow> symmetric (outer_loop adj xs)"
  by (induction xs arbitrary: adj) (simp_all add: symmetric_inner)

lemma symmetric_add_transaction:
  "symmetric (adjacency_list g) \<Longrightarrow> symmetric (adjacency_list (add_transaction g items))"
  by (simp add: add_transaction_def symmetric_outer)

lemma symmetric_foldl:
  "symmetric (adjacency_list g) \<Longrightarrow> symmetric (adjacency_list (foldl add_transaction g ts))"
  by (induction ts arbitrary: g) (simp_all add: symmetric_add_transaction)

lemma symmetric_build: "symmetric (adjacency_list (build ts))"
  unfolding build_def
  by (rule symmetric_foldl) (simp add: init_graph_def symmetric_def co_adj_def)

lemma fst_check_co_purchase_relation:
  "fst (check_co_purchase_relation g a b) = Inr (count_or_zero (coPurchase g a b))"
  by (auto simp: check_co_purchase_relation_def contains_def defaultdict_getitem_def
      dict_getitem_def count_or_zero_def coPurchase_def co_adj_def split: option.splits)

lemma snd_check_co_purchase_relation: "snd (check_co_purchase_relation g a b) = g"
  by (auto simp: check_co_purchase_relation_def contains_def defaultdict_getitem_def
      split: option.splits)

text \<open>
  C1. After any sequence of \<open>add_transaction\<close> calls on a fresh graph, the co-purchase
  count is symmetric: \<open>coPurchase[A][B]\<close> is defined exactly when \<open>coPurchase[B][A]\<close> is,
  the two counts are equal, and \<open>check_co_purchase_relation\<close> returns the same for
  \<open>(A, B)\<close> and \<open>(B, A)\<close>. This holds for all transactions, deduplicated or not.
\<close>

theorem symmetry_invariant:
  "(coPurchase (build ts) A B = None \<longleftrightarrow> coPurchase (build ts) B A = None)
   \<and> coPurchase (build ts) A B = coPurchase (build ts) B A
   \<and> fst (check_co_purchase_relation (build ts) A B)
       = fst (check_co_purchase_relation (build ts) B A)"
  using symmetric_build [of ts]
  by (simp add: fst_check_co_purchase_relation coPurchase_def symmetric_def)

subsection \<open>The pairs of one transaction\<close>

lemma co_adj_edge_pair:
  "x \<noteq> y \<Longrightarrow>
   co_adj (increment_edge (increment_edge adj x y) y x) a b =
     (if (a = x \<and> b = y) \<or> (a = y \<and> b = x) then Some (succ_count (co_adj adj a b))
      else co_adj adj a b)"
  by (simp add: co_adj_increment_edge)

lemma co_adj_inner_loop:
  "x \<notin> set ys \<Longrightarrow> distinct ys \<Longrightarrow>
   co_adj (inner_loop adj x ys) a b =
     (if (a = x \<and> b \<in> set ys) \<or> (b = x \<and> a \<in> set ys)
      then Some (succ_count (co_adj adj a b)) else co_adj adj a b)"
proof (induction ys arbitrary: adj)
  case Nil
  then show ?case by simp
next
  case (Cons y ys)
  from Cons.prems have xy: "x \<noteq> y" and x: "x \<notin> set ys" and y: "y \<notin> set ys" and d: "distinct ys"
    by auto
  show ?case
    using xy x y by (auto simp add: Cons.IH [OF x d] co_adj_edge_pair [OF xy])
qed

lemma co_adj_outer_loop:
  "distinct xs \<Longrightarrow>
   co_adj (outer_loop adj xs) a b =
     (if a \<in> set xs \<and> b \<in> set xs \<and> a \<noteq> b
      then Some (succ_count (co_adj adj a b)) else co_adj adj a b)"
proof (induction xs arbitrary: adj)
  case Nil
  then show ?case by simp
next
  case (Cons x xs)
  from Cons.prems have x: "x \<notin> set xs" and d: "distinct xs" by auto
  show ?case
    using x by (auto simp add: Cons.IH [OF d] co_adj_inner_loop [OF x d])
qed

lemma counter_getitem_setitem:
  "counter_getitem (dict_setitem f k v) a = (if a = k then v else counter_getitem f a)"
  by (simp add: counter_getitem_def map_of_dict_setitem)

lemma counter_increment_frequency:
  "counter_getitem (increment_frequency f items) a = counter_getitem f a + int (count_list items a)"
  unfolding increment_frequency_def
  by (induction items arbitrary: f) (simp_all add: counter_getitem_setitem)

lemma map_of_increment_frequency:
  "a \<notin> set items \<Longrightarrow> map_of (increment_frequency f items) a = map_of f a"
  unfolding increment_frequency_def
  by (induction items arbitrary: f) (simp_all add: map_of_dict_setitem)

lemma frequency_add_transaction:
  "frequency (add_transaction g items) a = frequency g a + int (count_list items a)"
  by (simp add: frequency_def add_transaction_def counter_increment_frequency)

lemma coPurchase_add_transaction:
  "distinct items \<Longrightarrow>
   coPurchase (add_transaction g items) a b =
     (if a \<in> set items \<and> b \<in> set items \<and> a \<noteq> b
      then Some (succ_count (coPurchase g a b)) else coPurchase g a b)"
proof -
  assume d: "distinct items"
  have small: "length items < 2 \<Longrightarrow> \<not> (a \<in> set items \<and> b \<in> set items \<and> a \<noteq> b)"
    by (cases items; cases "tl items") auto
  show ?thesis
    using d small by (auto simp add: coPurchase_def add_transaction_def co_adj_outer_loop)
qed

lemma count_or_zero_succ: "count_or_zero (Some (succ_count c)) = count_or_zero c + 1"
  by (simp add: count_or_zero_def succ_count_def split: option.splits)

lemma count_list_distinct: "distinct xs \<Longrightarrow> count_list xs a = (if a \<in> set xs then 1 else 0)"
  by (induction xs) auto

text \<open>
  C4. Additivity of ingestion: for a deduplicated transaction \<open>T\<close>, ingesting \<open>T\<close> twice
  changes every frequency and every pair count by twice what ingesting it once does; one
  ingestion adds exactly 1 to the frequency of each item of \<open>T\<close> and to the count of each
  pair of distinct items of \<open>T\<close>; the entries of items outside \<open>T\<close> and of all other
  pairs stay as they were (an undefined one stays undefined).
\<close>

theorem additivity:
  assumes "distinct T"
  shows
   "frequency (add_transaction (add_transaction g T) T) a - frequency g a
      = 2 * (frequency (add_transaction g T) a - frequency g a)
    \<and> count_or_zero (coPurchase (add_transaction (add_transaction g T) T) a b)
        - count_or_zero (coPurchase g a b)
      = 2 * (count_or_zero (coPurchase (add_transaction g T) a b)
              - count_or_zero (coPurchase g a b))
    \<and> (a \<in> set T \<longrightarrow> frequency (add_transaction g T) a = frequency g a + 1)
    \<and> (a \<in> set T \<and> b \<in> set T \<and> a \<noteq> b \<longrightarrow>
         coPurchase (add_transaction g T) a b = Some (count_or_zero (coPurchase g a b) + 1))
    \<and> (a \<notin> set T \<longrightarrow>
         map_of (product_frequency (add_transaction g T)) a = map_of (product_frequency g) a
         \<and> map_of (product_frequency (add_transaction (add_transaction g T) T)) a
             = map_of (product_frequency g) a)
    \<and> (\<not> (a \<in> set T \<and> b \<in> set T \<and> a \<noteq> b) \<longrightarrow>
         coPurchase (add_transaction g T) a b = coPurchase g a b
         \<and> coPurchase (add_transaction (add_transaction g T) T) a b = coPurchase g a b)"
proof -
  have f: "frequency (add_transaction (add_transaction g T) T) a - frequency g a
      = 2 * (frequency (add_transaction g T) a - frequency g a)"
    by (simp add: frequency_add_transaction)
  have c: "count_or_zero (coPurchase (add_transaction (add_transaction g T) T) a b)
        - count_or_zero (coPurchase g a b)
      = 2 * (count_or_zero (coPurchase (add_transaction g T) a b)
              - count_or_zero (coPurchase g a b))"
    by (simp add: coPurchase_add_transaction [OF assms] count_or_zero_succ)
  have f1: "a \<in> set T \<longrightarrow> frequency (add_transaction g T) a = frequency g a + 1"
    by (simp add: frequency_add_transaction count_list_distinct [OF assms])
  have c1: "a \<in> set T \<and> b \<in> set T \<and> a \<noteq> b \<longrightarrow>
         coPurchase (add_transaction g T) a b = Some (count_or_zero (coPurchase g a b) + 1)"
    by (simp add: coPurchase_add_transaction [OF assms] succ_count_def count_or_zero_def
        split: option.splits)
  have m: "map_of (product_frequency (add_transaction h T)) a = map_of (product_frequency h) a"
    if "a \<notin> set T" for h
    using that by (simp add: add_transaction_def map_of_increment_frequency)
  have u: "\<not> (a \<in> set T \<and> b \<in> set T \<and> a \<noteq> b) \<longrightarrow>
         coPurchase (add_transaction g T) a b = coPurchase g a b
         \<and> coPurchase (add_transaction (add_transaction g T) T) a b = coPurchase g a b"
    by (simp add: coPurchase_add_transaction [OF assms])
  show ?thesis
    using f c f1 c1 u m [of g] m [of "add_transaction g T"] by simp
qed

theorem additivity_witness:
  "distinct [''a'', ''b'']
   \<and> frequency (add_transaction (add_transaction init_graph [''a'', ''b'']) [''a'', ''b'']) ''a'' = 2
   \<and> frequency (add_transaction init_graph [''a'', ''b'']) ''a'' = 1
   \<and> coPurchase (add_transaction init_graph [''a'', ''b'']) ''a'' ''b'' = Some 1
   \<and> coPurchase (add_transaction (add_transaction init_graph [''a'', ''b'']) [''a'', ''b'']) ''a'' ''b'' = Some 2
   \<and> coPurchase (add_transaction init_graph [''a'', ''b'']) ''a'' ''c'' = None"
proof -
  have d: "distinct [''a'', ''b'']" by simp
  have z: "frequency init_graph ''a'' = 0" "coPurchase init_graph ''a'' ''b'' = None"
          "coPurchase init_graph ''a'' ''c'' = None"
    by (simp_all add: init_graph_def frequency_def counter_getitem_def coPurchase_def co_adj_def)
  note a = additivity [OF d, of init_graph "''a''" "''b''"]
  note b = additivity [OF d, of init_graph "''a''" "''c''"]
  have c2: "coPurchase (add_transaction (add_transaction init_graph [''a'', ''b'']) [''a'', ''b'']) ''a'' ''b'' = Some 2"
    by code_simp
  show ?thesis using a b z d c2 by (simp add: count_or_zero_def)
qed

lemma count_bounded_add_transaction:
  assumes "distinct T" and "count_bounded g"
  shows "count_bounded (add_transaction g T)"
proof -
  have b: "count_or_zero (coPurchase g a b) \<le> frequency g a"
          "count_or_zero (coPurchase g a b) \<le> frequency g b" for a b
    using assms(2) by (simp_all add: count_bounded_def)
  have "count_or_zero (coPurchase (add_transaction g T) a b) \<le> frequency (add_transaction g T) a
      \<and> count_or_zero (coPurchase (add_transaction g T) a b) \<le> frequency (add_transaction g T) b"
    for a b
    using b [of a b]
    by (simp add: coPurchase_add_transaction [OF assms(1)] frequency_add_transaction
        count_list_distinct [OF assms(1)] count_or_zero_succ)
  then show ?thesis by (simp add: count_bounded_def)
qed

lemma count_bounded_foldl:
  "\<forall>T\<in>set ts. distinct T \<Longrightarrow> count_bounded g \<Longrightarrow> count_bounded (foldl add_transaction g ts)"
  by (induction ts arbitrary: g) (simp_all add: count_bounded_add_transaction)

lemma count_bounded_init: "count_bounded init_graph"
  by (simp add: count_bounded_def init_graph_def coPurchase_def co_adj_def frequency_def
      counter_getitem_def count_or_zero_def)

text \<open>
  C8. Count bound: after any sequence of \<open>add_transaction\<close> calls on a fresh graph in
  which every transaction holds each item at most once, every recorded pair count
  \<open>coPurchase[A][B]\<close> is at most \<open>frequency[A]\<close> and at most \<open>frequency[B]\<close>.
\<close>

theorem count_bound_invariant:
  assumes "\<forall>T\<in>set ts. distinct T" and "coPurchase (build ts) A B = Some c"
  shows "c \<le> frequency (build ts) A \<and> c \<le> frequency (build ts) B"
proof -
  have "count_bounded (build ts)"
    unfolding build_def using assms(1) count_bounded_init by (rule count_bounded_foldl)
  then have "count_or_zero (coPurchase (build ts) A B) \<le> frequency (build ts) A
           \<and> count_or_zero (coPurchase (build ts) A B) \<le> frequency (build ts) B"
    by (simp add: count_bounded_def)
  then show ?thesis by (simp add: assms(2) count_or_zero_def)
qed

theorem count_bound_invariant_witness:
  "coPurchase (build [[''a'', ''b''], [''b'']]) ''a'' ''b'' = Some 1
   \<and> 1 \<le> frequency (build [[''a'', ''b''], [''b'']]) ''a''
   \<and> 1 \<le> frequency (build [[''a'', ''b''], [''b'']]) ''b''"
proof -
  have d: "\<forall>T\<in>set [[''a'', ''b''], [''b'']]. distinct T" by simp
  have c: "coPurchase (build [[''a'', ''b''], [''b'']]) ''a'' ''b'' = Some 1" by code_simp
  show ?thesis using count_bound_invariant [OF d c] c by simp
qed

subsection \<open>Queries leave the graph as it is\<close>

lemma defaultdict_getitem_present:
  "contains adj k \<Longrightarrow> defaultdict_getitem adj k = (the (map_of adj k), adj)"
  by (auto simp: contains_def defaultdict_getitem_def)

lemma snd_get_top_co_purchase: "snd (get_top_co_purchase g t n) = g"
  by (simp add: get_top_co_purchase_def defaultdict_getitem_present)

lemma snd_filter_loop: "snd (filter_loop cps ps (fa, adj)) = adj"
  by (induction ps arbitrary: fa) (simp_all add: defaultdict_getitem_present Let_def)

lemma snd_filter_by_category: "snd (filter_by_category g c) = g"
  using snd_filter_loop [of "map fst (filter (\<lambda>(p, cat). cat = c) (product_categories g))"
      "map fst (filter (\<lambda>(p, cat). cat = c) (product_categories g))" "[]" "adjacency_list g"]
  by (auto simp: filter_by_category_def Let_def split: prod.splits)

lemma snd_recommendation_loop: "snd (recommendation_loop inputs ps (scores, adj)) = adj"
  by (induction ps arbitrary: scores) (simp_all add: defaultdict_getitem_present)

lemma snd_get_recommendation: "snd (get_recommendation g inputs n) = g"
  using snd_recommendation_loop [of inputs inputs "[]" "adjacency_list g"]
  by (auto simp: get_recommendation_def split: prod.splits)

text \<open>
  C9. Read-only queries: each of the five query operations returns the graph it was given,
  so the frequency mapping and the co-purchase mapping are unchanged; in particular a
  query for an unknown item stores no empty adjacency entry for it.
\<close>

theorem queries_read_only:
  "snd (get_top_co_purchase g target n) = g
   \<and> snd (get_top3_product_pairs g) = g
   \<and> snd (check_co_purchase_relation g a b) = g
   \<and> snd (filter_by_category g category) = g
   \<and> snd (get_recommendation g inputs n') = g"
  by (simp add: snd_get_top_co_purchase snd_check_co_purchase_relation snd_filter_by_category
      snd_get_recommendation get_top3_product_pairs_def)

subsection \<open>Unknown items\<close>

lemma contains_inner_loop:
  "contains (inner_loop adj x ys) a = (contains adj a \<or> (ys \<noteq> [] \<and> (a = x \<or> a \<in> set ys)))"
proof (induction ys arbitrary: adj)
  case Nil
  then show ?case by simp
next
  case (Cons y ys)
  have "contains (inner_loop adj x (y # ys)) a
      = contains (inner_loop (increment_edge (increment_edge adj x y) y x) x ys) a"
    by simp
  also have "\<dots> = (contains (increment_edge (increment_edge adj x y) y x) a
                   \<or> (ys \<noteq> [] \<and> (a = x \<or> a \<in> set ys)))"
    by (rule Cons.IH)
  also have "\<dots> = ((a = y \<or> a = x \<or> contains adj a) \<or> (ys \<noteq> [] \<and> (a = x \<or> a \<in> set ys)))"
    by (simp only: contains_increment_edge)
  also have "\<dots> = (contains adj a \<or> (y # ys \<noteq> [] \<and> (a = x \<or> a \<in> set (y # ys))))"
    by auto
  finally show ?case .
qed

lemma contains_outer_loop:
  "contains (outer_loop adj xs) a = (contains adj a \<or> (2 \<le> length xs \<and> a \<in> set xs))"
proof (induction xs arbitrary: adj)
  case Nil
  then show ?case by simp
next
  case (Cons x xs)
  have "contains (outer_loop adj (x # xs)) a
      = (contains (inner_loop adj x xs) a \<or> (2 \<le> length xs \<and> a \<in> set xs))"
    by (simp add: Cons.IH)
  also have "\<dots> = (contains adj a \<or> (xs \<noteq> [] \<and> (a = x \<or> a \<in> set xs))
                   \<or> (2 \<le> length xs \<and> a \<in> set xs))"
    by (simp only: contains_inner_loop disj_assoc)
  also have "\<dots> = (contains adj a \<or> (2 \<le> length (x # xs) \<and> a \<in> set (x # xs)))"
    by (cases xs) auto
  finally show ?case .
qed

lemma contains_add_transaction:
  "contains (adjacency_list (add_transaction g items)) a
   \<Longrightarrow> contains (adjacency_list g) a \<or> a \<in> set items"
  by (auto simp: add_transaction_def contains_outer_loop split: if_splits)

lemma contains_foldl:
  "contains (adjacency_list (foldl add_transaction g ts)) a
   \<Longrightarrow> contains (adjacency_list g) a \<or> a \<in> ingested ts"
  by (induction ts arbitrary: g) (auto simp: ingested_def dest: contains_add_transaction)

lemma contains_build: "contains (adjacency_list (build ts)) a \<Longrightarrow> a \<in> ingested ts"
  unfolding build_def by (drule contains_foldl) (simp add: init_graph_def contains_def)

lemma coPurchase_contains: "coPurchase g a b \<noteq> None \<Longrightarrow> contains (adjacency_list g) a"
  by (auto simp: coPurchase_def co_adj_def contains_def split: option.splits)

lemma coPurchase_build_ingested:
  assumes "coPurchase (build ts) a b \<noteq> None"
  shows "a \<in> ingested ts \<and> b \<in> ingested ts"
proof -
  have "coPurchase (build ts) b a \<noteq> None"
    using assms symmetric_build [of ts] by (simp add: symmetric_def coPurchase_def)
  then have "contains (adjacency_list (build ts)) b"
    by (rule coPurchase_contains)
  moreover have "contains (adjacency_list (build ts)) a"
    using assms by (rule coPurchase_contains)
  ultimately show ?thesis by (simp add: contains_build)
qed

lemma check_co_purchase_relation_eq:
  "check_co_purchase_relation g a b = (Inr (count_or_zero (coPurchase g a b)), g)"
  using fst_check_co_purchase_relation [of g a b] snd_check_co_purchase_relation [of g a b]
  by (simp add: prod_eq_iff)

text \<open>
  C7. Unknown items: for a target without adjacency entry, and so for every target that
  was never ingested, \<open>get_top_co_purchase\<close> returns the empty list;
  \<open>check_co_purchase_relation\<close> returns 0 when the first item has no entry or no count
  is recorded for the pair, and so whenever one of the two items was never ingested; it
  never raises \<open>KeyError\<close>.
\<close>

theorem unknown_item_handling:
  "(\<not> contains (adjacency_list g) target \<longrightarrow> get_top_co_purchase g target n = ([], g))
   \<and> (target \<notin> ingested ts \<longrightarrow> get_top_co_purchase (build ts) target n = ([], build ts))
   \<and> (\<not> contains (adjacency_list g) A \<or> coPurchase g A B = None
        \<longrightarrow> check_co_purchase_relation g A B = (Inr 0, g))
   \<and> (A \<notin> ingested ts \<or> B \<notin> ingested ts
        \<longrightarrow> check_co_purchase_relation (build ts) A B = (Inr 0, build ts))
   \<and> (\<exists>c. fst (check_co_purchase_relation g A B) = Inr c)"
proof -
  have 1: "\<not> contains (adjacency_list g) target \<longrightarrow> get_top_co_purchase g target n = ([], g)"
    for g
    by (simp add: get_top_co_purchase_def)
  have 2: "target \<notin> ingested ts \<longrightarrow> get_top_co_purchase (build ts) target n = ([], build ts)"
    using 1 [of "build ts"] contains_build [of ts target] by blast
  have 3: "\<not> contains (adjacency_list g) A \<or> coPurchase g A B = None
        \<longrightarrow> check_co_purchase_relation g A B = (Inr 0, g)"
    using coPurchase_contains [of g A B]
    by (cases "coPurchase g A B") (auto simp: check_co_purchase_relation_eq count_or_zero_def)
  have 4: "A \<notin> ingested ts \<or> B \<notin> ingested ts
        \<longrightarrow> check_co_purchase_relation (build ts) A B = (Inr 0, build ts)"
    using coPurchase_build_ingested [of ts A B]
    by (cases "coPurchase (build ts) A B")
      (auto simp: check_co_purchase_relation_eq count_or_zero_def)
  have 5: "\<exists>c. fst (check_co_purchase_relation g A B) = Inr c"
    by (simp add: fst_check_co_purchase_relation)
  show ?thesis using 1 [of g] 2 3 4 5 by blast
qed

theorem unknown_item_handling_witness:
  "''z'' \<notin> ingested [[''a'', ''b''], [''c'']]
   \<and> get_top_co_purchase (build [[''a'', ''b''], [''c'']]) ''z'' 5 = ([], build [[''a'', ''b''], [''c'']])
   \<and> get_top_co_purchase (build [[''a'', ''b''], [''c'']]) ''c'' 5 = ([], build [[''a'', ''b''], [''c'']])
   \<and> check_co_purchase_relation (build [[''a'', ''b''], [''c'']]) ''a'' ''z''
       = (Inr 0, build [[''a'', ''b''], [''c'']])
   \<and> check_co_purchase_relation (build [[''a'', ''b''], [''c'']]) ''a'' ''c''
       = (Inr 0, build [[''a'', ''b''], [''c'']])"
proof -
  have z: "''z'' \<notin> ingested [[''a'', ''b''], [''c'']]" by (simp add: ingested_def)
  have c: "\<not> contains (adjacency_list (build [[''a'', ''b''], [''c'']])) ''c''" by code_simp
  have ac: "coPurchase (build [[''a'', ''b''], [''c'']]) ''a'' ''c'' = None" by code_simp
  show ?thesis
    using z c ac
      unknown_item_handling [of "build [[''a'', ''b''], [''c'']]" "''c''" 5 "[[''a'', ''b''], [''c'']]" "''a''" "''c''"]
      unknown_item_handling [of "build [[''a'', ''b''], [''c'']]" "''z''" 5 "[[''a'', ''b''], [''c'']]" "''a''" "''z''"]
    by simp
qed

subsection \<open>Recommendation\<close>

lemma keys_dict_setitem: "fst ` set (dict_setitem d k v) = insert k (fst ` set d)"
  by (simp add: dict_setitem_def dom_update)

lemma keys_score_neighbors:
  "fst ` set (score_neighbors inputs nbrs scores) \<subseteq> fst ` set scores \<union> (- set inputs)"
proof (induction nbrs arbitrary: scores)
  case Nil
  then show ?case by simp
next
  case (Cons p nbrs)
  obtain neighbor cnt where p: "p = (neighbor, cnt)" by (cases p)
  show ?case
  proof (cases "neighbor \<in> set inputs")
    case True
    then show ?thesis using Cons.IH [of scores] by (simp add: p)
  next
    case False
    then show ?thesis
      using Cons.IH [of "dict_setitem scores neighbor (counter_getitem scores neighbor + cnt)"]
      by (auto simp: p keys_dict_setitem)
  qed
qed

lemma keys_recommendation_loop:
  "fst ` set (fst (recommendation_loop inputs ps (scores, adj)))
     \<subseteq> fst ` set scores \<union> (- set inputs)"
proof (induction ps arbitrary: scores)
  case Nil
  then show ?case by simp
next
  case (Cons product ps)
  show ?case
  proof (cases "contains adj product")
    case False
    then show ?thesis using Cons.IH [of scores] by simp
  next
    case True
    have "fst ` set (fst (recommendation_loop inputs ps
              (score_neighbors inputs (the (map_of adj product)) scores, adj)))
          \<subseteq> fst ` set (score_neighbors inputs (the (map_of adj product)) scores) \<union> (- set inputs)"
      by (rule Cons.IH)
    also have "\<dots> \<subseteq> fst ` set scores \<union> (- set inputs)"
      using keys_score_neighbors [of inputs "the (map_of adj product)" scores] by blast
    finally show ?thesis
      using True by (simp add: defaultdict_getitem_present)
  qed
qed

lemma set_most_common: "set (most_common c n) \<subseteq> set c"
  by (auto simp: most_common_def sorted_reverse_def dest: in_set_takeD)

lemma fst_get_recommendation:
  "fst (get_recommendation g inputs n)
     = most_common (fst (recommendation_loop inputs inputs ([], adjacency_list g))) n"
  by (simp add: get_recommendation_def split: prod.splits)

text \<open>
  C5. Recommendation exclusion: no element of the result of \<open>get_recommendation\<close> is a
  member of the input products, whatever the graph and \<open>top_n\<close>; with no input
  products the result is empty.
\<close>

theorem recommendation_exclusion:
  "(\<forall>r \<in> set (fst (get_recommendation g inputs n)). fst r \<notin> set inputs)
   \<and> fst (get_recommendation g [] n) = []"
proof -
  have "fst ` set (fst (get_recommendation g inputs n)) \<subseteq> - set inputs"
    using keys_recommendation_loop [of inputs inputs "[]" "adjacency_list g"]
      set_most_common [of "fst (recommendation_loop inputs inputs ([], adjacency_list g))" n]
    by (auto simp: fst_get_recommendation)
  moreover have "fst (get_recommendation g [] n) = []"
    by (simp add: fst_get_recommendation most_common_def sorted_reverse_def)
  ultimately show ?thesis by auto
qed

theorem recommendation_exclusion_witness:
  "fst (get_recommendation (build [[''a'', ''b'', ''c''], [''b'', ''d'']]) [''a'', ''b''] 5)
     = [(''c'', 2), (''d'', 1)]
   \<and> ''c'' \<notin> set [''a'', ''b''] \<and> ''d'' \<notin> set [''a'', ''b'']"
proof -
  have r: "fst (get_recommendation (build [[''a'', ''b'', ''c''], [''b'', ''d'']]) [''a'', ''b''] 5)
     = [(''c'', 2), (''d'', 1)]"
    by code_simp
  show ?thesis
    using recommendation_exclusion
      [of "build [[''a'', ''b'', ''c''], [''b'', ''d'']]" "[''a'', ''b'']" 5]
    unfolding r by simp
qed

subsection \<open>Category filter\<close>

lemma set_dict_setitem: "set (dict_setitem d k v) \<subseteq> insert (k, v) (set d)"
  unfolding dict_setitem_def by (induction d) auto

lemma set_dict_comprehension_aux:
  "set (foldl (\<lambda>d (k, v). dict_setitem d k v) d kvs) \<subseteq> set d \<union> set kvs"
proof (induction kvs arbitrary: d)
  case Nil
  then show ?case by simp
next
  case (Cons p kvs)
  obtain k v where p: "p = (k, v)" by (cases p)
  show ?case
    using Cons.IH [of "dict_setitem d k v"] set_dict_setitem [of d k v]
    by (auto simp: p)
qed

lemma set_dict_comprehension: "set (dict_comprehension kvs) \<subseteq> set kvs"
  using set_dict_comprehension_aux [of "[]" kvs] by (simp add: dict_comprehension_def)

lemma filter_loop_entries:
  "(k, nb) \<in> set (fst (filter_loop cps ps (fa, adj))) \<Longrightarrow>
   (k, nb) \<in> set fa
   \<or> (k \<in> set ps \<and> contains adj k \<and> nb \<noteq> []
       \<and> set nb \<subseteq> {x \<in> set (the (map_of adj k)). fst x \<in> set cps})"
proof (induction ps arbitrary: fa)
  case Nil
  then show ?case by simp
next
  case (Cons product ps)
  let ?fn = "dict_comprehension
               (filter (\<lambda>(neighbor, cnt). neighbor \<in> set cps) (the (map_of adj product)))"
  show ?case
  proof (cases "contains adj product \<and> ?fn \<noteq> []")
    case False
    then have "filter_loop cps (product # ps) (fa, adj) = filter_loop cps ps (fa, adj)"
      by (auto simp: defaultdict_getitem_present Let_def)
    then show ?thesis using Cons.IH [of fa] Cons.prems by auto
  next
    case True
    then have step: "filter_loop cps (product # ps) (fa, adj)
        = filter_loop cps ps (dict_setitem fa product ?fn, adj)"
      by (simp add: defaultdict_getitem_present Let_def)
    have fn: "set ?fn \<subseteq> {x \<in> set (the (map_of adj product)). fst x \<in> set cps}"
      using set_dict_comprehension
        [of "filter (\<lambda>(neighbor, cnt). neighbor \<in> set cps) (the (map_of adj product))"]
      by auto
    from Cons.prems step
    have "(k, nb) \<in> set (fst (filter_loop cps ps (dict_setitem fa product ?fn, adj)))"
      by simp
    from Cons.IH [OF this]
    consider "(k, nb) \<in> set (dict_setitem fa product ?fn)"
      | "k \<in> set ps \<and> contains adj k \<and> nb \<noteq> []
         \<and> set nb \<subseteq> {x \<in> set (the (map_of adj k)). fst x \<in> set cps}"
      by blast
    then show ?thesis
    proof cases
      case 1
      then have "(k, nb) = (product, ?fn) \<or> (k, nb) \<in> set fa"
        using set_dict_setitem [of fa product ?fn] by blast
      then show ?thesis using True fn by auto
    next
      case 2
      then show ?thesis by simp
    qed
  qed
qed

lemma map_of_dict_ok: "dict_ok d \<Longrightarrow> (k, v) \<in> set d \<Longrightarrow> map_of d k = Some v"
  by (simp add: dict_ok_def)

lemma neighbors_dict_ok:
  "graph_ok g \<Longrightarrow> contains (adjacency_list g) k \<Longrightarrow> dict_ok (the (map_of (adjacency_list g) k))"
proof -
  assume ok: "graph_ok g" and c: "contains (adjacency_list g) k"
  then obtain d where d: "map_of (adjacency_list g) k = Some d"
    by (auto simp: contains_def)
  then have "(k, d) \<in> set (adjacency_list g)" by (rule map_of_SomeD)
  then show ?thesis
    using ok d by (auto simp: graph_ok_def list_all_iff)
qed

lemma coPurchase_member:
  assumes "graph_ok g" and "contains (adjacency_list g) k"
    and "(n, cnt) \<in> set (the (map_of (adjacency_list g) k))"
  shows "coPurchase g k n = Some cnt"
proof -
  obtain d where d: "map_of (adjacency_list g) k = Some d"
    using assms(2) by (auto simp: contains_def)
  have "map_of d n = Some cnt"
    using neighbors_dict_ok [OF assms(1,2)] assms(3) d by (simp add: map_of_dict_ok)
  then show ?thesis by (simp add: coPurchase_def co_adj_def d)
qed

text \<open>
  C6. Category filter closure: in a graph whose dicts hold each key once, every item key
  of the result of \<open>filter_by_category\<close> has the category as its entry of the category
  table, its nested mapping is not empty, and every neighbour in it has the category too
  and is recorded in the graph with that count; a category that no item of the table has
  yields the empty mapping.
\<close>

theorem category_filter_closure:
  assumes "graph_ok g"
  shows "(\<forall>(k, nb) \<in> set (fst (filter_by_category g category)).
            map_of (product_categories g) k = Some category \<and> nb \<noteq> []
            \<and> (\<forall>(n, cnt) \<in> set nb.
                  map_of (product_categories g) n = Some category
                  \<and> coPurchase g k n = Some cnt))
         \<and> (category \<notin> snd ` set (product_categories g)
              \<longrightarrow> fst (filter_by_category g category) = [])"
proof -
  let ?cps = "map fst (filter (\<lambda>(p, cat). cat = category) (product_categories g))"
  have cat: "map_of (product_categories g) p = Some category" if "p \<in> set ?cps" for p
  proof -
    from that have "(p, category) \<in> set (product_categories g)" by auto
    then show ?thesis
      using assms by (simp add: graph_ok_def map_of_dict_ok)
  qed
  have res: "fst (filter_by_category g category)
      = (if ?cps = [] then [] else fst (filter_loop ?cps ?cps ([], adjacency_list g)))"
    by (simp add: filter_by_category_def Let_def split: prod.splits)
  have entry: "map_of (product_categories g) k = Some category \<and> nb \<noteq> []
            \<and> (\<forall>(n, cnt) \<in> set nb.
                  map_of (product_categories g) n = Some category
                  \<and> coPurchase g k n = Some cnt)"
    if "(k, nb) \<in> set (fst (filter_by_category g category))" for k nb
  proof -
    from that have "(k, nb) \<in> set (fst (filter_loop ?cps ?cps ([], adjacency_list g)))"
      by (simp add: res split: if_splits)
    from filter_loop_entries [OF this]
    have k: "k \<in> set ?cps" and c: "contains (adjacency_list g) k" and ne: "nb \<noteq> []"
      and sub: "set nb \<subseteq> {x \<in> set (the (map_of (adjacency_list g) k)). fst x \<in> set ?cps}"
      by simp_all
    have "map_of (product_categories g) n = Some category \<and> coPurchase g k n = Some cnt"
      if "(n, cnt) \<in> set nb" for n cnt
    proof -
      from that sub
      have "(n, cnt) \<in> {x \<in> set (the (map_of (adjacency_list g) k)). fst x \<in> set ?cps}"
        by (rule subsetD [rotated])
      then have m: "(n, cnt) \<in> set (the (map_of (adjacency_list g) k))"
        and n: "n \<in> set ?cps" by simp_all
      show ?thesis using cat [OF n] coPurchase_member [OF assms c m] by simp
    qed
    then show ?thesis using cat [OF k] ne by auto
  qed
  have empty: "category \<notin> snd ` set (product_categories g)
              \<longrightarrow> fst (filter_by_category g category) = []"
  proof
    assume "category \<notin> snd ` set (product_categories g)"
    then have "filter (\<lambda>(p, cat). cat = category) (product_categories g) = []"
      by (auto simp: filter_empty_conv image_iff)
    then show "fst (filter_by_category g category) = []" by (simp add: res)
  qed
  have "\<forall>(k, nb) \<in> set (fst (filter_by_category g category)).
            map_of (product_categories g) k = Some category \<and> nb \<noteq> []
            \<and> (\<forall>(n, cnt) \<in> set nb.
                  map_of (product_categories g) n = Some category
                  \<and> coPurchase g k n = Some cnt)"
  proof (rule ballI)
    fix p assume p: "p \<in> set (fst (filter_by_category g category))"
    obtain k nb where "p = (k, nb)" by (cases p)
    with p entry [of k nb]
    show "case p of (k, nb) \<Rightarrow>
            map_of (product_categories g) k = Some category \<and> nb \<noteq> []
            \<and> (\<forall>(n, cnt) \<in> set nb.
                  map_of (product_categories g) n = Some category
                  \<and> coPurchase g k n = Some cnt)"
      by simp
  qed
  then show ?thesis using empty by (rule conjI)
qed

theorem category_filter_closure_witness:
  "graph_ok (build [[''whole milk'', ''yogurt'', ''soda''], [''yogurt'', ''whole milk'']])
   \<and> fst (filter_by_category
             (build [[''whole milk'', ''yogurt'', ''soda''], [''yogurt'', ''whole milk'']]) ''dairy'')
       = [(''whole milk'', [(''yogurt'', 2)]), (''yogurt'', [(''whole milk'', 2)])]
   \<and> map_of init_product_categories ''whole milk'' = Some ''dairy''
   \<and> map_of init_product_categories ''yogurt'' = Some ''dairy''
   \<and> coPurchase (build [[''whole milk'', ''yogurt'', ''soda''], [''yogurt'', ''whole milk'']])
         ''whole milk'' ''yogurt'' = Some 2
   \<and> ''seafood'' \<notin> snd ` set init_product_categories
   \<and> fst (filter_by_category
             (build [[''whole milk'', ''yogurt'', ''soda''], [''yogurt'', ''whole milk'']]) ''seafood'')
       = []"
proof -
  let ?G = "build [[''whole milk'', ''yogurt'', ''soda''], [''yogurt'', ''whole milk'']]"
  have ok: "graph_ok ?G" by code_simp
  have r: "fst (filter_by_category ?G ''dairy'')
       = [(''whole milk'', [(''yogurt'', 2)]), (''yogurt'', [(''whole milk'', 2)])]"
    by code_simp
  have cats: "product_categories ?G = init_product_categories" by code_simp
  have s: "''seafood'' \<notin> snd ` set init_product_categories" by code_simp
  show ?thesis
    using category_filter_closure [OF ok, of "''dairy''"]
      category_filter_closure [OF ok, of "''seafood''"] ok s
    unfolding r cats by simp
qed

subsection \<open>Python's stable descending sort\<close>

lemma stable_descending_sorted_reverse: "stable_descending src (sorted_reverse snd src)"
proof -
  have "sorted (map (\<lambda>x. - snd x) (sort_key (\<lambda>x. - snd x) src))"
    by (rule sorted_sort_key)
  then have s: "sorted_wrt (\<lambda>x y. snd y \<le> snd x) (sort_key (\<lambda>x. - snd x) src)"
    by (simp add: sorted_map)
  have "filter (\<lambda>x. snd x = c) (sort_key (\<lambda>x. - snd x) src) = filter (\<lambda>x. snd x = c) src" for c
    using sort_key_stable [of "\<lambda>x. - snd x" "- c" src] by simp
  then show ?thesis
    using s by (simp add: stable_descending_def sorted_reverse_def list_all_iff)
qed

lemma stable_descending_unique:
  assumes "stable_descending src ys"
  shows "ys = sorted_reverse snd src"
proof -
  from assms have m: "mset ys = mset src"
    and s: "sorted_wrt (\<lambda>x y. snd y \<le> snd x) ys"
    and f: "\<And>e. e \<in> set src \<Longrightarrow>
              filter (\<lambda>x. snd x = snd e) ys = filter (\<lambda>x. snd x = snd e) src"
    by (simp_all add: stable_descending_def list_all_iff)
  from m have "set ys = set src" by (rule mset_eq_setD)
  with f have f': "filter (\<lambda>x. - snd k = - snd x) ys = filter (\<lambda>x. - snd k = - snd x) src"
    if "k \<in> set ys" for k
    using that by (simp add: eq_commute [of "snd k"])
  have "sorted (map (\<lambda>x. - snd x) ys)"
    using s by (simp add: sorted_map)
  with m f' have "sort_key (\<lambda>x. - snd x) src = ys"
    by (rule properties_for_sort_key)
  then show ?thesis by (simp add: sorted_reverse_def)
qed

lemma fst_get_top_co_purchase:
  "fst (get_top_co_purchase g target n) = slice_to (sorted_reverse snd (neighbors_of g target)) n"
  by (auto simp: get_top_co_purchase_def neighbors_of_def contains_def defaultdict_getitem_def
      sorted_reverse_def slice_to_def split: option.splits)

lemma tie_order_example:
  "fst (get_top_co_purchase (build [[''b'', ''c''], [''a'', ''b'']]) ''b'' 2)
     = [(''c'', 1), (''a'', 1)]"
  by code_simp

text \<open>
  The specification's order for \<open>get_top_co_purchase\<close> (ties by ascending neighbour
  identifier) is not the code's: after \<open>[b, c]\<close> and \<open>[a, b]\<close> the neighbours of \<open>b\<close>
  both have count 1 and the code returns \<open>c\<close>, recorded first, before \<open>a\<close>.
\<close>

theorem top_co_purchase_lexicographic_counterexample:
  "fst (get_top_co_purchase (build [[''b'', ''c''], [''a'', ''b'']]) ''b'' 2)
     = [(''c'', 1), (''a'', 1)]
   \<and> top_co_purchase_spec (build [[''b'', ''c''], [''a'', ''b'']]) ''b'' 2
     = [(''a'', 1), (''c'', 1)]
   \<and> fst (get_top_co_purchase (build [[''b'', ''c''], [''a'', ''b'']]) ''b'' 2)
     \<noteq> top_co_purchase_spec (build [[''b'', ''c''], [''a'', ''b'']]) ''b'' 2"
proof -
  have s: "top_co_purchase_spec (build [[''b'', ''c''], [''a'', ''b'']]) ''b'' 2
     = [(''a'', 1), (''c'', 1)]"
    by code_simp
  show ?thesis unfolding s tie_order_example by simp
qed

text \<open>
  C2, as the code has it. For every graph, target and \<open>n \<ge> 0\<close>, \<open>get_top_co_purchase\<close>
  returns the first \<open>n\<close> entries of the one arrangement of the target's neighbours that
  is descending by count with equal counts in the order in which the neighbours were
  first recorded for the target; with at most \<open>n\<close> neighbours it returns all of them.
\<close>

theorem top_co_purchase_order:
  assumes "0 \<le> n"
  shows "(\<exists>ys. stable_descending (neighbors_of g target) ys)
     \<and> (\<forall>ys. stable_descending (neighbors_of g target) ys
           \<longrightarrow> fst (get_top_co_purchase g target n) = take (nat n) ys
             \<and> (length (neighbors_of g target) \<le> nat n
                  \<longrightarrow> fst (get_top_co_purchase g target n) = ys))"
proof -
  have ex: "\<exists>ys. stable_descending (neighbors_of g target) ys"
    using stable_descending_sorted_reverse by blast
  have "fst (get_top_co_purchase g target n) = take (nat n) ys
        \<and> (length (neighbors_of g target) \<le> nat n
              \<longrightarrow> fst (get_top_co_purchase g target n) = ys)"
    if "stable_descending (neighbors_of g target) ys" for ys
  proof -
    from that have ys: "ys = sorted_reverse snd (neighbors_of g target)"
      by (rule stable_descending_unique)
    have "length ys = length (neighbors_of g target)"
      by (simp add: ys sorted_reverse_def)
    then show ?thesis
      using assms by (simp add: fst_get_top_co_purchase slice_to_def ys)
  qed
  with ex show ?thesis by blast
qed

theorem top_co_purchase_order_witness:
  "(0::int) \<le> 2
   \<and> stable_descending (neighbors_of (build [[''b'', ''c''], [''a'', ''b''], [''a'', ''b'']]) ''b'')
        [(''a'', 2), (''c'', 1)]
   \<and> fst (get_top_co_purchase (build [[''b'', ''c''], [''a'', ''b''], [''a'', ''b'']]) ''b'' 2)
       = [(''a'', 2), (''c'', 1)]
   \<and> fst (get_top_co_purchase (build [[''b'', ''c''], [''a'', ''b''], [''a'', ''b'']]) ''b'' 1)
       = [(''a'', 2)]"
proof -
  let ?G = "build [[''b'', ''c''], [''a'', ''b''], [''a'', ''b'']]"
  have n: "neighbors_of ?G ''b'' = [(''c'', 1), (''a'', 2)]" by code_simp
  have sd: "stable_descending (neighbors_of ?G ''b'') [(''a'', 2), (''c'', 1)]"
    unfolding n by (simp add: stable_descending_def)
  have z: "(0::int) \<le> 2" "(0::int) \<le> 1" by simp_all
  show ?thesis
    using top_co_purchase_order [OF z(1), of ?G "''b''"]
      top_co_purchase_order [OF z(2), of ?G "''b''"] sd
    by simp
qed

subsection \<open>The pairs collected by \<open>get_top3_product_pairs\<close>\<close>

lemma pairs_inner_foldl:
  "pairs_inner item1 nbrs st = foldl record_pair st (edges_of item1 nbrs)"
proof (induction nbrs arbitrary: st)
  case Nil
  then show ?case by (simp add: edges_of_def)
next
  case (Cons p nbrs)
  obtain item2 cnt where p: "p = (item2, cnt)" by (cases p)
  obtain all_pairs processed where st: "st = (all_pairs, processed)" by (cases st)
  show ?case
    using Cons.IH by (simp add: p st edges_of_def record_pair_def Let_def)
qed

lemma pairs_outer_foldl: "pairs_outer adj st = foldl record_pair st (edges adj)"
proof (induction adj arbitrary: st)
  case Nil
  then show ?case by (simp add: edges_def)
next
  case (Cons p adj)
  obtain item1 nbrs where p: "p = (item1, nbrs)" by (cases p)
  show ?case
    using Cons.IH by (simp add: p edges_def pairs_inner_foldl)
qed

lemma record_pairs_snd:
  "snd (foldl record_pair ([], {}) es) = fst ` set (fst (foldl record_pair ([], {}) es))"
  by (induction es rule: rev_induct) (auto simp: record_pair_def)

lemma record_pairs_snoc:
  "fst (foldl record_pair ([], {}) (es @ [e]))
     = (if fst e \<in> fst ` set (fst (foldl record_pair ([], {}) es))
        then fst (foldl record_pair ([], {}) es)
        else fst (foldl record_pair ([], {}) es) @ [e])"
  using record_pairs_snd [of es] by (simp add: record_pair_def)

lemma record_pairs_keys:
  "fst ` set (fst (foldl record_pair ([], {}) es)) = fst ` set es"
proof (induction es rule: rev_induct)
  case Nil
  then show ?case by simp
next
  case (snoc e es)
  show ?case unfolding record_pairs_snoc by (simp add: snoc.IH insert_absorb)
qed

lemma record_pairs_subset: "set (fst (foldl record_pair ([], {}) es)) \<subseteq> set es"
proof (induction es rule: rev_induct)
  case Nil
  then show ?case by simp
next
  case (snoc e es)
  show ?case unfolding record_pairs_snoc using snoc.IH by auto
qed

lemma record_pairs_first:
  "map fst (fst (foldl record_pair ([], {}) es)) = rev (remdups (rev (map fst es)))"
proof (induction es rule: rev_induct)
  case Nil
  then show ?case by simp
next
  case (snoc e es)
  show ?case
    unfolding record_pairs_snoc using snoc.IH record_pairs_keys [of es] by auto
qed

lemma collect_pairs_edges:
  "collect_pairs g = fst (foldl record_pair ([], {}) (edges (adjacency_list g)))"
  by (simp add: collect_pairs_def pairs_outer_foldl)

lemma collect_pairs_first:
  "map fst (collect_pairs g) = rev (remdups (rev (map fst (edges (adjacency_list g)))))"
  by (simp add: collect_pairs_edges record_pairs_first)

lemma distinct_collect_pairs: "distinct (map fst (collect_pairs g))"
  by (simp add: collect_pairs_first)

lemma in_edges:
  "(p, c) \<in> set (edges adj)
     \<longleftrightarrow> (\<exists>a d b. (a, d) \<in> set adj \<and> (b, c) \<in> set d \<and> p = sorted_pair a b)"
proof
  assume "(p, c) \<in> set (edges adj)"
  then show "\<exists>a d b. (a, d) \<in> set adj \<and> (b, c) \<in> set d \<and> p = sorted_pair a b"
    by (auto simp: edges_def edges_of_def)
next
  assume "\<exists>a d b. (a, d) \<in> set adj \<and> (b, c) \<in> set d \<and> p = sorted_pair a b"
  then obtain a d b where ad: "(a, d) \<in> set adj" and bc: "(b, c) \<in> set d"
    and p: "p = sorted_pair a b" by blast
  from bc have "(p, c) \<in> set (edges_of a d)"
    by (force simp: edges_of_def p)
  with ad show "(p, c) \<in> set (edges adj)"
    by (force simp: edges_def)
qed

lemma coPurchase_iff_member:
  assumes "graph_ok g"
  shows "coPurchase g a b = Some c
     \<longleftrightarrow> (\<exists>d. (a, d) \<in> set (adjacency_list g) \<and> (b, c) \<in> set d)"
proof
  assume "coPurchase g a b = Some c"
  then obtain d where "map_of (adjacency_list g) a = Some d" and "map_of d b = Some c"
    by (auto simp: coPurchase_def co_adj_def split: option.splits)
  then show "\<exists>d. (a, d) \<in> set (adjacency_list g) \<and> (b, c) \<in> set d"
    by (blast dest: map_of_SomeD)
next
  assume "\<exists>d. (a, d) \<in> set (adjacency_list g) \<and> (b, c) \<in> set d"
  then obtain d where ad: "(a, d) \<in> set (adjacency_list g)" and bc: "(b, c) \<in> set d"
    by blast
  from assms ad have d: "map_of (adjacency_list g) a = Some d"
    by (simp add: graph_ok_def map_of_dict_ok)
  from assms ad have "dict_ok d"
    by (auto simp: graph_ok_def list_all_iff)
  with bc have "map_of d b = Some c" by (simp add: map_of_dict_ok)
  with d show "coPurchase g a b = Some c" by (simp add: coPurchase_def co_adj_def)
qed

lemma in_edges_coPurchase:
  assumes "graph_ok g"
  shows "(p, c) \<in> set (edges (adjacency_list g))
     \<longleftrightarrow> (\<exists>a b. p = sorted_pair a b \<and> coPurchase g a b = Some c)"
  unfolding in_edges coPurchase_iff_member [OF assms] by blast

lemma fst_get_top3_product_pairs:
  "fst (get_top3_product_pairs g) = take 3 (sorted_reverse snd (collect_pairs g))"
  by (simp add: get_top3_product_pairs_def slice_to_def)

text \<open>
  The specification's order for the top pairs (ties by ascending canonical pair) is not the
  code's: after \<open>[b, c]\<close> and \<open>[a, b]\<close> both pairs have count 1 and the code returns
  \<open>(b, c)\<close>, met first, before \<open>(a, b)\<close>.
\<close>

theorem top_pairs_first_encounter_counterexample:
  "fst (get_top3_product_pairs (build [[''b'', ''c''], [''a'', ''b'']]))
     = [((''b'', ''c''), 1), ((''a'', ''b''), 1)]
   \<and> top_pairs_spec (build [[''b'', ''c''], [''a'', ''b'']]) 3
     = [((''a'', ''b''), 1), ((''b'', ''c''), 1)]
   \<and> fst (get_top3_product_pairs (build [[''b'', ''c''], [''a'', ''b'']]))
     \<noteq> top_pairs_spec (build [[''b'', ''c''], [''a'', ''b'']]) 3"
proof -
  have c: "fst (get_top3_product_pairs (build [[''b'', ''c''], [''a'', ''b'']]))
     = [((''b'', ''c''), 1), ((''a'', ''b''), 1)]"
    by code_simp
  have s: "top_pairs_spec (build [[''b'', ''c''], [''a'', ''b'']]) 3
     = [((''a'', ''b''), 1), ((''b'', ''c''), 1)]"
    by code_simp
  show ?thesis unfolding c s by simp
qed

text \<open>
  C3, as the code has it. \<open>get_top3_product_pairs\<close> takes no \<open>k\<close>: it returns at most
  3 pairs. In a graph whose dicts hold each key once, the pairs it collects are exactly
  the sorted pairs with a recorded count, each once, in the order in which the iteration
  over the adjacency list first meets them, each with a count recorded for it; the result
  is the first 3 entries of the one arrangement of them that is descending by count with
  equal counts in that order of first meeting (all of them when there are fewer than 3).
\<close>

theorem top_pairs_order:
  assumes "graph_ok g"
  shows "distinct (map fst (collect_pairs g))
     \<and> fst ` set (collect_pairs g) = {sorted_pair a b | a b. coPurchase g a b \<noteq> None}
     \<and> map fst (collect_pairs g) = rev (remdups (rev (map fst (edges (adjacency_list g)))))
     \<and> (\<forall>(p, c) \<in> set (collect_pairs g). \<exists>a b. p = sorted_pair a b \<and> coPurchase g a b = Some c)
     \<and> (\<exists>ps. stable_descending (collect_pairs g) ps)
     \<and> (\<forall>ps. stable_descending (collect_pairs g) ps
           \<longrightarrow> fst (get_top3_product_pairs g) = take 3 ps)"
proof -
  have keys: "fst ` set (collect_pairs g) = {sorted_pair a b | a b. coPurchase g a b \<noteq> None}"
  proof -
    have "fst ` set (collect_pairs g) = fst ` set (edges (adjacency_list g))"
      by (simp add: collect_pairs_edges record_pairs_keys)
    also have "\<dots> = {sorted_pair a b | a b. coPurchase g a b \<noteq> None}"
    proof (rule set_eqI)
      fix p
      have "p \<in> fst ` set (edges (adjacency_list g))
          \<longleftrightarrow> (\<exists>c. (p, c) \<in> set (edges (adjacency_list g)))"
        by force
      also have "\<dots> \<longleftrightarrow> (\<exists>c a b. p = sorted_pair a b \<and> coPurchase g a b = Some c)"
        by (simp add: in_edges_coPurchase [OF assms])
      also have "\<dots> \<longleftrightarrow> p \<in> {sorted_pair a b | a b. coPurchase g a b \<noteq> None}"
        by auto
      finally show "p \<in> fst ` set (edges (adjacency_list g))
          \<longleftrightarrow> p \<in> {sorted_pair a b | a b. coPurchase g a b \<noteq> None}" .
    qed
    finally show ?thesis .
  qed
  have counts: "\<forall>(p, c) \<in> set (collect_pairs g).
                  \<exists>a b. p = sorted_pair a b \<and> coPurchase g a b = Some c"
  proof (rule ballI)
    fix e assume e: "e \<in> set (collect_pairs g)"
    obtain p c where pc: "e = (p, c)" by (cases e)
    from e have "e \<in> set (edges (adjacency_list g))"
      using record_pairs_subset [of "edges (adjacency_list g)"]
      by (auto simp: collect_pairs_edges)
    then show "case e of (p, c) \<Rightarrow> \<exists>a b. p = sorted_pair a b \<and> coPurchase g a b = Some c"
      by (simp add: pc in_edges_coPurchase [OF assms])
  qed
  have ex: "\<exists>ps. stable_descending (collect_pairs g) ps"
    using stable_descending_sorted_reverse by blast
  have uniq: "\<forall>ps. stable_descending (collect_pairs g) ps
           \<longrightarrow> fst (get_top3_product_pairs g) = take 3 ps"
    by (auto simp: fst_get_top3_product_pairs dest: stable_descending_unique)
  show ?thesis
    using distinct_collect_pairs keys collect_pairs_first counts ex uniq by blast
qed

theorem top_pairs_order_witness:
  "graph_ok (build [[''b'', ''c''], [''a'', ''b''], [''a'', ''c''], [''a'', ''c'']])
   \<and> collect_pairs (build [[''b'', ''c''], [''a'', ''b''], [''a'', ''c''], [''a'', ''c'']])
       = [((''b'', ''c''), 1), ((''a'', ''b''), 1), ((''a'', ''c''), 2)]
   \<and> stable_descending
        (collect_pairs (build [[''b'', ''c''], [''a'', ''b''], [''a'', ''c''], [''a'', ''c'']]))
        [((''a'', ''c''), 2), ((''b'', ''c''), 1), ((''a'', ''b''), 1)]
   \<and> fst (get_top3_product_pairs
             (build [[''b'', ''c''], [''a'', ''b''], [''a'', ''c''], [''a'', ''c'']]))
       = [((''a'', ''c''), 2), ((''b'', ''c''), 1), ((''a'', ''b''), 1)]"
proof -
  let ?G = "build [[''b'', ''c''], [''a'', ''b''], [''a'', ''c''], [''a'', ''c'']]"
  have ok: "graph_ok ?G" by code_simp
  have c: "collect_pairs ?G = [((''b'', ''c''), 1), ((''a'', ''b''), 1), ((''a'', ''c''), 2)]"
    by code_simp
  have sd: "stable_descending (collect_pairs ?G)
        [((''a'', ''c''), 2), ((''b'', ''c''), 1), ((''a'', ''b''), 1)]"
    unfolding c by (simp add: stable_descending_def)
  show ?thesis
    using top_pairs_order [OF ok] ok c sd by simp
qed

subsection \<open>Determinism of the tie order\<close>

lemma fst_get_recommendation_scores:
  "fst (get_recommendation g inputs n) = most_common (recommendation_scores g inputs) n"
  by (simp add: fst_get_recommendation recommendation_scores_def)

text \<open>
  C10. Determinism: the result of each ranking query is fixed by the graph, which is fixed
  by the sequence of transactions. Whatever list holds the source entries (the neighbours
  of the target, the collected pairs, the recommendation scores, each in insertion order)
  descending by count with equal counts in insertion order, the query returns its
  truncation, and such a list always exists; so ties are resolved by first insertion under
  the stable sort. That order is not the lexicographic one: after \<open>[b, c]\<close> and
  \<open>[a, b]\<close> the neighbour \<open>c\<close> of \<open>b\<close> comes before \<open>a\<close>.
\<close>

theorem deterministic_tie_order:
  "(stable_descending (neighbors_of g target) ys
      \<longrightarrow> fst (get_top_co_purchase g target n) = slice_to ys n)
   \<and> (stable_descending (collect_pairs g) ps
      \<longrightarrow> fst (get_top3_product_pairs g) = take 3 ps)
   \<and> (stable_descending (recommendation_scores g inputs) rs
      \<longrightarrow> fst (get_recommendation g inputs n) = (if n \<le> 0 then [] else take (nat n) rs))
   \<and> (\<exists>ys ps rs. stable_descending (neighbors_of g target) ys
         \<and> stable_descending (collect_pairs g) ps
         \<and> stable_descending (recommendation_scores g inputs) rs)
   \<and> ''a'' < ''c''
   \<and> fst (get_top_co_purchase (build [[''b'', ''c''], [''a'', ''b'']]) ''b'' 2)
       = [(''c'', 1), (''a'', 1)]"
proof -
  have 1: "stable_descending (neighbors_of g target) ys
      \<longrightarrow> fst (get_top_co_purchase g target n) = slice_to ys n"
    by (auto simp: fst_get_top_co_purchase dest: stable_descending_unique)
  have 2: "stable_descending (collect_pairs g) ps
      \<longrightarrow> fst (get_top3_product_pairs g) = take 3 ps"
    by (auto simp: fst_get_top3_product_pairs dest: stable_descending_unique)
  have 3: "stable_descending (recommendation_scores g inputs) rs
      \<longrightarrow> fst (get_recommendation g inputs n) = (if n \<le> 0 then [] else take (nat n) rs)"
    by (auto simp: fst_get_recommendation_scores most_common_def dest: stable_descending_unique)
  have 4: "\<exists>ys ps rs. stable_descending (neighbors_of g target) ys
         \<and> stable_descending (collect_pairs g) ps
         \<and> stable_descending (recommendation_scores g inputs) rs"
    using stable_descending_sorted_reverse [of "neighbors_of g target"]
      stable_descending_sorted_reverse [of "collect_pairs g"]
      stable_descending_sorted_reverse [of "recommendation_scores g inputs"]
    by blast
  have 5: "''a'' < ''c''" by simp
  show ?thesis using 1 2 3 4 5 tie_order_example by blast
qed

theorem deterministic_tie_order_witness:
  "stable_descending (neighbors_of (build [[''b'', ''c''], [''a'', ''b'']]) ''b'')
     [(''c'', 1), (''a'', 1)]
   \<and> fst (get_top_co_purchase (build [[''b'', ''c''], [''a'', ''b'']]) ''b'' 1) = [(''c'', 1)]
   \<and> stable_descending (collect_pairs (build [[''b'', ''c''], [''a'', ''b'']]))
        [((''b'', ''c''), 1), ((''a'', ''b''), 1)]
   \<and> fst (get_top3_product_pairs (build [[''b'', ''c''], [''a'', ''b'']]))
        = [((''b'', ''c''), 1), ((''a'', ''b''), 1)]
   \<and> stable_descending (recommendation_scores (build [[''b'', ''c''], [''a'', ''b'']]) [''b''])
        [(''c'', 1), (''a'', 1)]
   \<and> fst (get_recommendation (build [[''b'', ''c''], [''a'', ''b'']]) [''b''] 1) = [(''c'', 1)]"
proof -
  let ?G = "build [[''b'', ''c''], [''a'', ''b'']]"
  have n: "neighbors_of ?G ''b'' = [(''c'', 1), (''a'', 1)]" by code_simp
  have c: "collect_pairs ?G = [((''b'', ''c''), 1), ((''a'', ''b''), 1)]" by code_simp
  have r: "recommendation_scores ?G [''b''] = [(''c'', 1), (''a'', 1)]" by code_simp
  have sn: "stable_descending (neighbors_of ?G ''b'') [(''c'', 1), (''a'', 1)]"
    unfolding n by (simp add: stable_descending_def)
  have sc: "stable_descending (collect_pairs ?G) [((''b'', ''c''), 1), ((''a'', ''b''), 1)]"
    unfolding c by (simp add: stable_descending_def)
  have sr: "stable_descending (recommendation_scores ?G [''b'']) [(''c'', 1), (''a'', 1)]"
    unfolding r by (simp add: stable_descending_def)
  show ?thesis
    using deterministic_tie_order [of ?G "''b''" "[(''c'', 1), (''a'', 1)]" 1
        "[((''b'', ''c''), 1), ((''a'', ''b''), 1)]" "[''b'']" "[(''c'', 1), (''a'', 1)]"]
      sn sc sr
    by (simp add: slice_to_def)
qed

end
